theory Spec2Isabelle
  imports Main "HOL-Library.Word"
begin

section \<open>Level-scoped storage of forward AD gradients (forward\_grad.h)\<close>

text \<open>
  The header declares two classes. A \<open>ForwardADLevel\<close> (a scope) owns the set of
  \<open>ForwardGrad\<close> objects (holders) that store a gradient for it; a \<open>ForwardGrad\<close> maps level
  indices to tensors. The model is sequential: every method runs to its end before the
  next one starts, so the mutexes of the source have no counterpart here.

  A \<open>std::shared_ptr<ForwardGrad>\<close> is an address in a store of holder objects, the levels
  live in the registry under their index, and a method that throws returns the error
  together with the state at the moment of the throw.
\<close>

subsection \<open>Data\<close>

type_synonym idx = "64 word"

type_synonym grad_ptr = nat

text \<open>\<open>at::Tensor\<close> is opaque; a tensor handle is either undefined or carries a payload.\<close>

datatype 'a tensor = UndefinedTensor | Tensor 'a

datatype error = UnknownScope | NoFreeIndex

text \<open>\<open>struct ForwardADLevel\<close>, with the fields \<open>grads_\<close> and \<open>idx_\<close> of the source under
  the names \<open>grads\<close> and \<open>level_idx\<close>. The \<open>unordered_set\<close> is kept as a list without
  repetitions so that the destructor can walk it.\<close>

record ForwardADLevel =
  grads :: "grad_ptr list"
  level_idx :: idx

text \<open>\<open>struct ForwardGrad\<close>, with the field \<open>content_\<close> of the source under the name
  \<open>content\<close>. The \<open>unordered_map\<close> is kept as an association list so that \<open>clear\<close> can
  walk its keys.\<close>

record 'a ForwardGrad =
  content :: "(idx \<times> 'a tensor) list"

text \<open>The process state: the registry of active levels, the store of holders (a holder
  that was never touched is the freshly constructed, empty one), and the undefined tensor
  that \<open>undef_grad\<close> hands out.\<close>

record 'a state =
  active :: "idx \<rightharpoonup> ForwardADLevel"
  grad_store :: "grad_ptr \<Rightarrow> 'a ForwardGrad"
  undef_tensor :: "'a tensor"

definition init :: "'a state" where
  "init = \<lparr> active = Map.empty, grad_store = (\<lambda>g. \<lparr> content = [] \<rparr>),
            undef_tensor = UndefinedTensor \<rparr>"

subsection \<open>The containers of the standard library\<close>

text \<open>\<open>unordered_set::insert\<close> and \<open>unordered_set::erase\<close>.\<close>

definition uset_insert :: "'k \<Rightarrow> 'k list \<Rightarrow> 'k list" where
  "uset_insert x xs = (if x \<in> set xs then xs else x # xs)"

definition uset_erase :: "'k \<Rightarrow> 'k list \<Rightarrow> 'k list" where
  "uset_erase x xs = removeAll x xs"

text \<open>\<open>unordered_map::count\<close>, \<open>insert\<close> (which leaves an existing element alone),
  \<open>erase\<close> and \<open>find\<close>.\<close>

definition umap_count :: "'k \<Rightarrow> ('k \<times> 'v) list \<Rightarrow> nat" where
  "umap_count k m = length (filter (\<lambda>p. fst p = k) m)"

definition umap_insert :: "'k \<Rightarrow> 'v \<Rightarrow> ('k \<times> 'v) list \<Rightarrow> ('k \<times> 'v) list" where
  "umap_insert k v m = (if umap_count k m > 0 then m else m @ [(k, v)])"

definition umap_erase :: "'k \<Rightarrow> ('k \<times> 'v) list \<Rightarrow> ('k \<times> 'v) list" where
  "umap_erase k m = filter (\<lambda>p. fst p \<noteq> k) m"

definition umap_find :: "'k \<Rightarrow> ('k \<times> 'v) list \<Rightarrow> 'v option" where
  "umap_find k m = map_of m k"

subsection \<open>ForwardADLevel\<close>

text \<open>The constructor \<open>ForwardADLevel(uint64_t idx)\<close>.\<close>

definition ForwardADLevel_new :: "idx \<Rightarrow> ForwardADLevel" where
  "ForwardADLevel_new i = \<lparr> grads = [], level_idx = i \<rparr>"

definition ForwardADLevel_erase :: "grad_ptr \<Rightarrow> ForwardADLevel \<Rightarrow> ForwardADLevel" where
  "ForwardADLevel_erase grad L = L\<lparr> grads := uset_erase grad (grads L) \<rparr>"

definition ForwardADLevel_insert :: "grad_ptr \<Rightarrow> ForwardADLevel \<Rightarrow> ForwardADLevel" where
  "ForwardADLevel_insert grad L = L\<lparr> grads := uset_insert grad (grads L) \<rparr>"

text \<open>Writing a level object back under the index it was fetched by.\<close>

definition put_level :: "idx \<Rightarrow> ForwardADLevel \<Rightarrow> 'a state \<Rightarrow> 'a state" where
  "put_level i L s = s\<lparr> active := (active s)(i \<mapsto> L) \<rparr>"

text \<open>Modelled from the spec: \<open>ForwardADLevel::try_get_by_idx\<close>, declared in the header
  and defined outside it. The lookup of an active scope that returns "absent" for an
  index that is not active.\<close>

definition try_get_by_idx :: "idx \<Rightarrow> 'a state \<Rightarrow> ForwardADLevel option" where
  "try_get_by_idx i s = active s i"

text \<open>Modelled from the spec: \<open>ForwardADLevel::get_by_idx\<close>, declared in the header and
  defined outside it. The same lookup, failing with \<open>UnknownScope\<close> when no scope is
  active under the index.\<close>

definition get_by_idx :: "idx \<Rightarrow> 'a state \<Rightarrow> error + ForwardADLevel" where
  "get_by_idx i s = (case active s i of None \<Rightarrow> Inl UnknownScope | Some L \<Rightarrow> Inr L)"

text \<open>The number of values of a \<open>uint64_t\<close>.\<close>

definition index_space :: nat where
  "index_space = 2 ^ 64"

text \<open>The search behind \<open>get_next_idx\<close>: the first index from \<open>c\<close> on, in at most \<open>fuel\<close>
  tries, that no live scope holds.\<close>

fun mint :: "nat \<Rightarrow> (idx \<Rightarrow> bool) \<Rightarrow> idx \<Rightarrow> idx option" where
  "mint fuel live c =
     (if fuel = 0 then None
      else if live c then mint (fuel - 1) live (c + 1)
      else Some c)"

declare mint.simps [simp del]

text \<open>Modelled from the spec: \<open>ForwardADLevel::get_next_idx\<close>, declared in the header and
  defined outside it. The spec asks for a new scope with a fresh index, never one that a
  live scope holds, registered as active, and has the index of a released scope handed
  out again by a later call. It also speaks of an advancing counter, and does not say how
  the counter and the reuse of released indices go together. The model keeps no counter:
  it takes the least index that no live scope holds, which under nested use is the
  nesting depth that the header's comment speaks of. The general facts below rest only on
  the returned index not being active; the scenarios also on the first index being 0 and
  being handed out again once released. When every value of a \<open>uint64_t\<close> is the index of
  a live scope there is no fresh index and the call fails.\<close>

definition get_next_idx :: "'a state \<Rightarrow> (error + idx) \<times> 'a state" where
  "get_next_idx s =
     (case mint index_space (\<lambda>i. active s i \<noteq> None) 0 of
        None \<Rightarrow> (Inl NoFreeIndex, s)
      | Some i \<Rightarrow> (Inr i, put_level i (ForwardADLevel_new i) s))"

subsection \<open>ForwardGrad\<close>

definition content_erase :: "grad_ptr \<Rightarrow> idx \<Rightarrow> 'a state \<Rightarrow> 'a state" where
  "content_erase this level s =
     s\<lparr> grad_store := (grad_store s)
          (this := (grad_store s this)
             \<lparr> content := umap_erase level (content (grad_store s this)) \<rparr>) \<rparr>"

definition content_insert :: "grad_ptr \<Rightarrow> idx \<Rightarrow> 'a tensor \<Rightarrow> 'a state \<Rightarrow> 'a state" where
  "content_insert this level v s =
     s\<lparr> grad_store := (grad_store s)
          (this := (grad_store s this)
             \<lparr> content := umap_insert level v (content (grad_store s this)) \<rparr>) \<rparr>"

text \<open>\<open>ForwardGrad::clear\<close>, lines 78 to 98: the keys of \<open>content\<close> are copied, and for
  each key whose level is still there the holder is erased from that level. The body of
  the second loop is \<open>clear_step\<close>. \<open>content\<close> itself is not written.\<close>

definition clear_step :: "grad_ptr \<Rightarrow> idx \<Rightarrow> 'a state \<Rightarrow> 'a state" where
  "clear_step this l_idx s =
     (case try_get_by_idx l_idx s of
        None \<Rightarrow> s
      | Some level \<Rightarrow> put_level l_idx (ForwardADLevel_erase this level) s)"

definition clear :: "grad_ptr \<Rightarrow> 'a state \<Rightarrow> error option \<times> 'a state" where
  "clear this s =
     (let levels_idx = map fst (content (grad_store s this))
      in (None, fold (clear_step this) levels_idx s))"

text \<open>\<open>ForwardGrad::set_value\<close>, lines 100 to 105.\<close>

definition set_value :: "grad_ptr \<Rightarrow> 'a tensor \<Rightarrow> idx \<Rightarrow> 'a state \<Rightarrow> error option \<times> 'a state" where
  "set_value this v level s =
     (case get_by_idx level s of
        Inl e \<Rightarrow> (Some e, s)
      | Inr L \<Rightarrow>
          (None, content_insert this level v (put_level level (ForwardADLevel_insert this L) s)))"

text \<open>\<open>ForwardGrad::reset\<close>, lines 107 to 114; \<open>update_level\<close> defaults to true.\<close>

definition reset :: "grad_ptr \<Rightarrow> idx \<Rightarrow> bool \<Rightarrow> 'a state \<Rightarrow> error option \<times> 'a state" where
  "reset this level update_level s =
     (if update_level then
        (case get_by_idx level s of
           Inl e \<Rightarrow> (Some e, s)
         | Inr L \<Rightarrow>
             (None, content_erase this level (put_level level (ForwardADLevel_erase this L) s)))
      else (None, content_erase this level s))"

text \<open>\<open>ForwardGrad::contains\<close>, lines 118 to 121, and \<open>ForwardGrad::empty\<close>.\<close>

definition contains :: "grad_ptr \<Rightarrow> idx \<Rightarrow> 'a state \<Rightarrow> bool" where
  "contains this level s \<longleftrightarrow> umap_count level (content (grad_store s this)) > 0"


text \<open>A \<open>const at::Tensor&\<close>: either the process-wide undefined tensor or the slot of a
  level in a holder's \<open>content\<close>.\<close>

datatype tensor_ref = SingletonUndefined | ContentSlot grad_ptr idx

definition tensor_at :: "tensor_ref \<Rightarrow> 'a state \<Rightarrow> 'a tensor option" where
  "tensor_at r s =
     (case r of
        SingletonUndefined \<Rightarrow> Some (undef_tensor s)
      | ContentSlot g level \<Rightarrow> umap_find level (content (grad_store s g)))"

text \<open>Modelled from the spec: \<open>ForwardGrad::undef_grad\<close>, declared in the header and
  defined outside it: the reference to the shared "undefined" sentinel.\<close>

definition undef_grad :: tensor_ref where
  "undef_grad = SingletonUndefined"

text \<open>Modelled from the spec: \<open>ForwardGrad::value\<close>, declared in the header and defined
  outside it. It returns the stored value for the index, or the shared sentinel if
  there is none.\<close>

definition "value" :: "grad_ptr \<Rightarrow> idx \<Rightarrow> 'a state \<Rightarrow> tensor_ref" where
  "value this level s =
     (case umap_find level (content (grad_store s this)) of
        None \<Rightarrow> undef_grad
      | Some _ \<Rightarrow> ContentSlot this level)"

subsection \<open>Releasing a level\<close>

text \<open>Modelled from the spec: the destructor \<open>~ForwardADLevel\<close>, declared in the header
  and defined outside it. For every member holder it invokes the holder's \<open>reset\<close> for
  this scope's index, without asking the holder to unregister, so the holder's entry
  disappears.\<close>

definition ForwardADLevel_destroy :: "ForwardADLevel \<Rightarrow> 'a state \<Rightarrow> 'a state" where
  "ForwardADLevel_destroy L s = fold (\<lambda>g t. snd (reset g (level_idx L) False t)) (grads L) s"

text \<open>Modelled from the spec: \<open>ForwardADLevel::release_idx\<close>, declared in the header and
  defined outside it. It removes the scope at the index from the active ones and destroys
  it; an index that is not active is the contract violation \<open>UnknownScope\<close>.\<close>

definition release_idx :: "idx \<Rightarrow> 'a state \<Rightarrow> error option \<times> 'a state" where
  "release_idx i s =
     (case try_get_by_idx i s of
        None \<Rightarrow> (Some UnknownScope, s)
      | Some L \<Rightarrow> (None, ForwardADLevel_destroy L (s\<lparr> active := (active s)(i := None) \<rparr>)))"

subsection \<open>Sequences of calls\<close>

datatype 'a call =
    NextIdx
  | Release idx
  | SetValue grad_ptr "'a tensor" idx
  | Reset grad_ptr idx bool
  | Clear grad_ptr

text \<open>The state a call leaves behind, whether it returns or throws.\<close>

fun exec :: "'a call \<Rightarrow> 'a state \<Rightarrow> 'a state" where
  "exec NextIdx s = snd (get_next_idx s)"
| "exec (Release i) s = snd (release_idx i s)"
| "exec (SetValue g v i) s = snd (set_value g v i s)"
| "exec (Reset g i b) s = snd (reset g i b s)"
| "exec (Clear g) s = snd (clear g s)"

definition run :: "'a call list \<Rightarrow> 'a state \<Rightarrow> 'a state" where
  "run cs s = fold exec cs s"

subsection \<open>Observations on a state\<close>

text \<open>The level at \<open>i\<close> is active and lists the holder \<open>g\<close> in its \<open>grads_\<close>.\<close>

definition member :: "grad_ptr \<Rightarrow> idx \<Rightarrow> 'a state \<Rightarrow> bool" where
  "member g i s \<longleftrightarrow> (case active s i of None \<Rightarrow> False | Some L \<Rightarrow> g \<in> set (grads L))"

text \<open>What the holder \<open>g\<close> stores under \<open>i\<close>, if anything.\<close>

definition entry :: "grad_ptr \<Rightarrow> idx \<Rightarrow> 'a state \<Rightarrow> 'a tensor option" where
  "entry g i s = umap_find i (content (grad_store s g))"

text \<open>Every active level carries the index it is registered under.\<close>

definition levels_wf :: "'a state \<Rightarrow> bool" where
  "levels_wf s \<longleftrightarrow> (\<forall>i L. active s i = Some L \<longrightarrow> level_idx L = i)"

text \<open>A call that leaves \<open>update_level\<close> of \<open>reset\<close> at its default.\<close>

fun default_update :: "'a call \<Rightarrow> bool" where
  "default_update (Reset g i b) = b"
| "default_update c = True"

subsection \<open>The states of the scenarios\<close>

definition stale_state :: "int state" where
  "stale_state = run [NextIdx, SetValue 0 (Tensor 1) 0, Clear 0, Release 0] init"

definition twice_set_state :: "int state" where
  "twice_set_state = run [NextIdx, SetValue 0 (Tensor 1) 0, SetValue 0 (Tensor 2) 0] init"

definition two_scopes_state :: "int state" where
  "two_scopes_state = run [NextIdx, NextIdx, SetValue 0 (Tensor 0) 0] init"

definition two_scopes_after :: "int state" where
  "two_scopes_after =
     snd (set_value 0 (Tensor 2) 1 (snd (set_value 0 (Tensor 1) 0 two_scopes_state)))"

definition cleared_state :: "int state" where
  "cleared_state = run [NextIdx, SetValue 0 (Tensor 1) 0, Clear 0] init"

definition released_state :: "int state" where
  "released_state = run [NextIdx, SetValue 0 (Tensor 1) 0, Release 0] init"

section \<open>Auxiliary facts\<close>

subsection \<open>The containers\<close>

lemma umap_count_pos: "0 < umap_count k m \<longleftrightarrow> k \<in> fst ` set m"
  by (induction m) (auto simp: umap_count_def)

lemma umap_find_None: "umap_find k m = None \<longleftrightarrow> k \<notin> fst ` set m"
  by (simp add: umap_find_def map_of_eq_None_iff)

lemma keys_umap_insert: "fst ` set (umap_insert k v m) = insert k (fst ` set m)"
  by (auto simp: umap_insert_def umap_count_pos)

lemma keys_umap_erase: "fst ` set (umap_erase k m) = fst ` set m - {k}"
  by (auto simp: umap_erase_def)

lemma umap_find_insert:
  "umap_find k' (umap_insert k v m) =
     (if k' = k \<and> k \<notin> fst ` set m then Some v else umap_find k' m)"
proof (cases "k \<in> fst ` set m")
  case True
  then show ?thesis by (simp add: umap_insert_def umap_count_pos)
next
  case False
  then have "map_of m k = None" by (simp add: map_of_eq_None_iff)
  with False show ?thesis
    by (cases "map_of m k'") (auto simp: umap_insert_def umap_count_pos umap_find_def map_add_def)
qed

lemma umap_find_erase:
  "umap_find k' (umap_erase k m) = (if k' = k then None else umap_find k' m)"
  by (induction m) (auto simp: umap_erase_def umap_find_def)

lemma set_uset_insert: "set (uset_insert x xs) = insert x (set xs)"
  by (auto simp: uset_insert_def)

lemma set_uset_erase: "set (uset_erase x xs) = set xs - {x}"
  by (auto simp: uset_erase_def)

lemma contains_keys: "contains g i s \<longleftrightarrow> i \<in> fst ` set (content (grad_store s g))"
  by (simp add: contains_def umap_count_pos)

lemma contains_entry: "contains g i s \<longleftrightarrow> entry g i s \<noteq> None"
  by (simp add: contains_keys entry_def umap_find_None)

lemma mint_free: "mint n live c = Some i \<Longrightarrow> \<not> live i"
  by (induction n live c rule: mint.induct) (subst (asm) mint.simps, auto split: if_splits)

lemma get_next_idx_Inr:
  "get_next_idx s = (Inr i, s') \<Longrightarrow> active s i = None \<and> s' = put_level i (ForwardADLevel_new i) s"
  by (auto simp: get_next_idx_def split: option.splits dest: mint_free)

lemma get_next_idx_Inl:
  "get_next_idx s = (Inl e, s') \<Longrightarrow> s' = s"
  by (auto simp: get_next_idx_def split: option.splits)

lemma clear_fold_active:
  "active (fold (clear_step g) ls s) i =
     (if i \<in> set ls then map_option (ForwardADLevel_erase g) (active s i) else active s i)"
proof (induction ls arbitrary: s)
  case Nil
  show ?case by simp
next
  case (Cons l ls)
  have idem: "ForwardADLevel_erase g (ForwardADLevel_erase g L) = ForwardADLevel_erase g L" for L
    by (simp add: ForwardADLevel_erase_def uset_erase_def)
  have step: "fold (clear_step g) (l # ls) s = fold (clear_step g) ls (clear_step g l s)"
    by simp
  show ?case
    unfolding step Cons.IH
    by (auto simp: clear_step_def try_get_by_idx_def put_level_def idem split: option.splits)
qed

lemma clear_step_store: "grad_store (clear_step g l s) = grad_store s"
  by (simp add: clear_step_def try_get_by_idx_def put_level_def split: option.splits)

lemma clear_step_undef: "undef_tensor (clear_step g l s) = undef_tensor s"
  by (simp add: clear_step_def try_get_by_idx_def put_level_def split: option.splits)

lemma clear_fold_store: "grad_store (fold (clear_step g) ls s) = grad_store s"
  by (induction ls arbitrary: s) (simp_all add: clear_step_store)

lemma clear_fold_undef: "undef_tensor (fold (clear_step g) ls s) = undef_tensor s"
  by (induction ls arbitrary: s) (simp_all add: clear_step_undef)

lemma reset_False: "reset g k False s = (None, content_erase g k s)"
  by (simp add: reset_def)

lemma destroy_fold_store:
  "grad_store (fold (\<lambda>g t. snd (reset g k False t)) gs s) h =
     (if h \<in> set gs
      then (grad_store s h)\<lparr> content := umap_erase k (content (grad_store s h)) \<rparr>
      else grad_store s h)"
proof (induction gs arbitrary: s)
  case Nil
  show ?case by simp
next
  case (Cons g gs)
  have idem: "umap_erase k (umap_erase k m) = umap_erase k m" for m :: "(idx \<times> 'a tensor) list"
    by (simp add: umap_erase_def)
  have step: "fold (\<lambda>g t. snd (reset g k False t)) (g # gs) s =
              fold (\<lambda>g t. snd (reset g k False t)) gs (content_erase g k s)"
    by (simp add: reset_def)
  show ?case
    unfolding step Cons.IH by (auto simp: content_erase_def idem)
qed

lemma destroy_fold_active: "active (fold (\<lambda>g t. snd (reset g k False t)) gs s) = active s"
  by (induction gs arbitrary: s) (simp_all add: reset_False content_erase_def)

lemma destroy_fold_undef:
  "undef_tensor (fold (\<lambda>g t. snd (reset g k False t)) gs s) = undef_tensor s"
  by (induction gs arbitrary: s) (simp_all add: reset_False content_erase_def)

subsection \<open>What each call does to the observations\<close>

lemma get_by_idx_cases:
  "get_by_idx i s = (case active s i of None \<Rightarrow> Inl UnknownScope | Some L \<Rightarrow> Inr L)"
  by (simp add: get_by_idx_def)

lemma entry_content_insert:
  "entry g i (content_insert h j v s) =
     (if g = h \<and> i = j \<and> entry h j s = None then Some v else entry g i s)"
  by (simp add: entry_def content_insert_def umap_find_insert umap_find_None [symmetric])

lemma entry_content_erase:
  "entry g i (content_erase h j s) = (if g = h \<and> i = j then None else entry g i s)"
  by (simp add: entry_def content_erase_def umap_find_erase)

lemma entry_put_level: "entry g i (put_level j L s) = entry g i s"
  by (simp add: entry_def put_level_def)

lemma active_content_insert: "active (content_insert h j v s) = active s"
  by (simp add: content_insert_def)

lemma active_content_erase: "active (content_erase h j s) = active s"
  by (simp add: content_erase_def)

lemma active_put_level: "active (put_level j L s) = (active s)(j \<mapsto> L)"
  by (simp add: put_level_def)

lemma member_content_insert: "member g i (content_insert h j v s) = member g i s"
  by (simp add: member_def active_content_insert)

lemma member_content_erase: "member g i (content_erase h j s) = member g i s"
  by (simp add: member_def active_content_erase)

lemma member_put_level:
  "member g i (put_level j L s) = (if i = j then g \<in> set (grads L) else member g i s)"
  by (simp add: member_def active_put_level)

text \<open>\<open>set_value\<close>\<close>

lemma set_value_unknown: "active s j = None \<Longrightarrow> set_value h v j s = (Some UnknownScope, s)"
  by (simp add: set_value_def get_by_idx_def)

lemma set_value_known:
  "active s j = Some L \<Longrightarrow>
   set_value h v j s =
     (None, content_insert h j v (put_level j (ForwardADLevel_insert h L) s))"
  by (simp add: set_value_def get_by_idx_def)

lemma entry_set_value:
  "entry g i (snd (set_value h v j s)) =
     (if active s j \<noteq> None \<and> g = h \<and> i = j \<and> entry h j s = None then Some v
      else entry g i s)"
  by (cases "active s j")
     (simp_all add: set_value_unknown set_value_known entry_content_insert entry_put_level)

lemma member_set_value:
  "member g i (snd (set_value h v j s)) =
     (if active s j \<noteq> None \<and> g = h \<and> i = j then True else member g i s)"
proof (cases "active s j")
  case None
  then show ?thesis by (simp add: set_value_unknown)
next
  case (Some L)
  have "member g j s \<Longrightarrow> g \<in> set (grads L)" "g \<in> set (grads L) \<Longrightarrow> member g j s"
    using Some by (simp_all add: member_def)
  then show ?thesis
    using Some
    by (auto simp: set_value_known member_content_insert member_put_level
          ForwardADLevel_insert_def set_uset_insert)
qed

text \<open>\<open>reset\<close>\<close>

lemma reset_unknown: "active s j = None \<Longrightarrow> reset h j True s = (Some UnknownScope, s)"
  by (simp add: reset_def get_by_idx_def)

lemma reset_known:
  "active s j = Some L \<Longrightarrow>
   reset h j True s = (None, content_erase h j (put_level j (ForwardADLevel_erase h L) s))"
  by (simp add: reset_def get_by_idx_def)

lemma entry_reset:
  "entry g i (snd (reset h j b s)) =
     (if (b \<longrightarrow> active s j \<noteq> None) \<and> g = h \<and> i = j then None else entry g i s)"
  by (cases b; cases "active s j")
     (simp_all add: reset_unknown reset_known reset_False entry_content_erase entry_put_level)

lemma member_reset:
  "member g i (snd (reset h j b s)) =
     (if b \<and> g = h \<and> i = j then False else member g i s)"
proof (cases b)
  case False
  then show ?thesis by (simp add: reset_False member_content_erase)
next
  case True
  show ?thesis
  proof (cases "active s j")
    case None
    then have "\<not> member h j s" by (simp add: member_def)
    with None True show ?thesis by (auto simp: reset_unknown)
  next
    case (Some L)
    have "member g j s \<Longrightarrow> g \<in> set (grads L)" "g \<in> set (grads L) \<Longrightarrow> member g j s"
      using Some by (simp_all add: member_def)
    then show ?thesis
      using Some True
      by (auto simp: reset_known member_content_erase member_put_level
            ForwardADLevel_erase_def set_uset_erase)
  qed
qed

text \<open>\<open>clear\<close>\<close>

lemma entry_clear: "entry g i (snd (clear h s)) = entry g i s"
  by (simp add: clear_def entry_def clear_fold_store)

lemma member_clear:
  "member g i (snd (clear h s)) = (member g i s \<and> \<not> (g = h \<and> contains h i s))"
  by (cases "active s i")
     (auto simp: clear_def member_def clear_fold_active contains_keys
        ForwardADLevel_erase_def set_uset_erase)

text \<open>\<open>get_next_idx\<close>\<close>

lemma entry_get_next_idx: "entry g i (snd (get_next_idx s)) = entry g i s"
  by (simp add: get_next_idx_def entry_put_level split: option.splits)

lemma member_get_next_idx: "member g i (snd (get_next_idx s)) = member g i s"
proof (cases "get_next_idx s")
  case (Pair r s')
  show ?thesis
  proof (cases r)
    case (Inl e)
    with Pair have "s' = s" by (simp add: get_next_idx_Inl)
    with Pair show ?thesis by simp
  next
    case (Inr k)
    with Pair have "active s k = None" "s' = put_level k (ForwardADLevel_new k) s"
      by (simp_all add: get_next_idx_Inr)
    with Pair show ?thesis
      by (simp add: member_put_level ForwardADLevel_new_def) (simp add: member_def)
  qed
qed

text \<open>\<open>release_idx\<close>\<close>

lemma release_idx_unknown: "active s j = None \<Longrightarrow> release_idx j s = (Some UnknownScope, s)"
  by (simp add: release_idx_def try_get_by_idx_def)

lemma release_idx_known:
  "active s j = Some L \<Longrightarrow>
   release_idx j s = (None, ForwardADLevel_destroy L (s\<lparr> active := (active s)(j := None) \<rparr>))"
  by (simp add: release_idx_def try_get_by_idx_def)

lemma active_release_idx: "active (snd (release_idx j s)) = (active s)(j := None)"
  by (cases "active s j")
     (auto simp: release_idx_unknown release_idx_known ForwardADLevel_destroy_def
        destroy_fold_active)

lemma member_release_idx: "member g i (snd (release_idx j s)) = (member g i s \<and> i \<noteq> j)"
  by (auto simp: member_def active_release_idx)

lemma entry_release_idx:
  "entry g i (snd (release_idx j s)) =
     (case active s j of
        None \<Rightarrow> entry g i s
      | Some L \<Rightarrow> if g \<in> set (grads L) \<and> i = level_idx L then None else entry g i s)"
  by (cases "active s j")
     (simp_all add: release_idx_unknown release_idx_known ForwardADLevel_destroy_def entry_def
        destroy_fold_store umap_find_erase)

lemma entry_release_idx_wf:
  "levels_wf s \<Longrightarrow>
   entry g i (snd (release_idx j s)) = (if member g j s \<and> i = j then None else entry g i s)"
  by (cases "active s j") (auto simp: entry_release_idx member_def levels_wf_def)

subsection \<open>The registry after each call\<close>

lemma active_set_value:
  "active (snd (set_value h v j s)) =
     (case active s j of
        None \<Rightarrow> active s
      | Some L \<Rightarrow> (active s)(j \<mapsto> ForwardADLevel_insert h L))"
  by (cases "active s j")
     (simp_all add: set_value_unknown set_value_known active_content_insert active_put_level)

lemma active_reset:
  "active (snd (reset h j b s)) =
     (if b then (case active s j of
                   None \<Rightarrow> active s
                 | Some L \<Rightarrow> (active s)(j \<mapsto> ForwardADLevel_erase h L))
      else active s)"
  by (cases b; cases "active s j")
     (simp_all add: reset_unknown reset_known reset_False active_content_erase active_put_level)

lemma active_clear:
  "active (snd (clear h s)) i =
     (if contains h i s then map_option (ForwardADLevel_erase h) (active s i) else active s i)"
  by (simp add: clear_def clear_fold_active contains_keys)

lemma active_get_next_idx:
  "fst (get_next_idx s) = Inr k \<Longrightarrow>
   active (snd (get_next_idx s)) = (active s)(k \<mapsto> ForwardADLevel_new k)"
  by (cases "get_next_idx s") (auto dest: get_next_idx_Inr simp: active_put_level)

lemma mint_first: "\<not> live c \<Longrightarrow> mint index_space live c = Some c"
  by (subst mint.simps) (simp add: index_space_def)

lemma mint_second: "live c \<Longrightarrow> \<not> live (c + 1) \<Longrightarrow> mint index_space live c = Some (c + 1)"
  apply (subst mint.simps)
  apply (simp add: index_space_def)
  apply (subst mint.simps)
  apply simp
  done

lemma get_next_idx_first:
  "active s 0 = None \<Longrightarrow> get_next_idx s = (Inr 0, put_level 0 (ForwardADLevel_new 0) s)"
  by (simp add: get_next_idx_def mint_first)

lemma get_next_idx_second:
  "active s 0 \<noteq> None \<Longrightarrow> active s 1 = None \<Longrightarrow>
   get_next_idx s = (Inr 1, put_level 1 (ForwardADLevel_new 1) s)"
  using mint_second [of "\<lambda>i. active s i \<noteq> None" 0]
  by (simp add: get_next_idx_def)

lemma active_None_set_value: "active (snd (set_value h v j s)) i = None \<longleftrightarrow> active s i = None"
  by (cases "active s j") (simp_all add: active_set_value)

lemma fst_set_value: "fst (set_value h v j s) = (if active s j = None then Some UnknownScope else None)"
  by (cases "active s j") (simp_all add: set_value_unknown set_value_known)

lemma fst_reset:
  "fst (reset h j b s) = (if b \<and> active s j = None then Some UnknownScope else None)"
  by (cases b; cases "active s j") (simp_all add: reset_unknown reset_known reset_False)

lemma fst_release_idx:
  "fst (release_idx j s) = (if active s j = None then Some UnknownScope else None)"
  by (cases "active s j") (simp_all add: release_idx_unknown release_idx_known)

lemma tensor_at_value:
  "tensor_at (value g i s) s = (case entry g i s of None \<Rightarrow> Some (undef_tensor s) | Some v \<Rightarrow> Some v)"
  by (simp add: value_def tensor_at_def undef_grad_def entry_def split: option.splits)

lemma undef_tensor_exec: "undef_tensor (exec c s) = undef_tensor s"
proof (cases c)
  case NextIdx
  then show ?thesis by (simp add: get_next_idx_def put_level_def split: option.splits)
next
  case (Release i)
  then show ?thesis
    by (simp add: release_idx_def try_get_by_idx_def ForwardADLevel_destroy_def
          destroy_fold_undef split: option.splits)
next
  case (SetValue g v i)
  then show ?thesis
    by (simp add: set_value_def get_by_idx_def content_insert_def put_level_def
          split: option.splits)
next
  case (Reset g i b)
  then show ?thesis
    by (simp add: reset_def get_by_idx_def content_erase_def put_level_def split: option.splits)
next
  case (Clear g)
  then show ?thesis by (simp add: clear_def clear_fold_undef)
qed

lemma undef_tensor_run: "undef_tensor (run cs s) = undef_tensor s"
  unfolding run_def by (induction cs arbitrary: s) (simp_all add: undef_tensor_exec)

lemma run_Nil: "run [] s = s"
  by (simp add: run_def)

lemma run_Cons: "run (c # cs) s = run cs (exec c s)"
  by (simp add: run_def)

lemma run_append: "run (cs @ ds) s = run ds (run cs s)"
  by (simp add: run_def)

lemma active_init: "active init i = None"
  by (simp add: init_def)

lemma active_after_first: "active (snd (get_next_idx (init :: 'a state))) = [0 \<mapsto> ForwardADLevel_new 0]"
  by (simp add: get_next_idx_first active_init active_put_level) (simp add: init_def)

lemma entry_init: "entry g i init = None"
  by (simp add: entry_def init_def umap_find_def)

lemma stale_state_facts:
  "active stale_state 0 = None" "contains 0 0 stale_state"
proof -
  show "active stale_state 0 = None"
    by (simp add: stale_state_def run_Cons run_Nil active_release_idx)
  show "contains 0 0 stale_state"
    by (simp add: stale_state_def run_Cons run_Nil contains_entry entry_release_idx
          active_clear entry_clear entry_set_value active_set_value active_after_first
          entry_get_next_idx entry_init ForwardADLevel_insert_def ForwardADLevel_erase_def
          ForwardADLevel_new_def set_uset_insert set_uset_erase)
qed

lemma put_level_same: "active s i = Some L \<Longrightarrow> put_level i L s = s"
  by (simp add: put_level_def map_upd_triv)

lemma content_insert_same: "entry g i s \<noteq> None \<Longrightarrow> content_insert g i v s = s"
  by (simp add: content_insert_def umap_insert_def umap_count_pos entry_def umap_find_None)

lemma ForwardADLevel_insert_same: "g \<in> set (grads L) \<Longrightarrow> ForwardADLevel_insert g L = L"
  by (simp add: ForwardADLevel_insert_def uset_insert_def)

lemma set_value_again:
  assumes "member g i s" and "entry g i s \<noteq> None"
  shows "set_value g v i s = (None, s)"
proof -
  from assms(1) obtain L where L: "active s i = Some L" and g: "g \<in> set (grads L)"
    by (cases "active s i") (simp_all add: member_def)
  from g have "ForwardADLevel_insert g L = L" by (rule ForwardADLevel_insert_same)
  with L have "put_level i (ForwardADLevel_insert g L) s = s" by (simp add: put_level_same)
  with L assms(2) show ?thesis by (simp add: set_value_known content_insert_same)
qed

lemma active_after_second:
  "active (snd (get_next_idx (snd (get_next_idx (init :: 'a state))))) =
     [0 \<mapsto> ForwardADLevel_new 0, 1 \<mapsto> ForwardADLevel_new 1]"
proof -
  let ?s = "snd (get_next_idx (init :: 'a state))"
  have "get_next_idx ?s = (Inr 1, put_level 1 (ForwardADLevel_new 1) ?s)"
    by (rule get_next_idx_second) (simp_all add: active_after_first)
  then show ?thesis by (simp add: active_put_level active_after_first)
qed

lemma two_scopes_state_facts:
  "active two_scopes_state 0 \<noteq> None" "active two_scopes_state 1 \<noteq> None"
  "entry g i two_scopes_state = (if g = 0 \<and> i = 0 then Some (Tensor 0) else None)"
  by (simp_all add: two_scopes_state_def run_Cons run_Nil active_set_value active_after_second
        entry_set_value entry_get_next_idx entry_init)

subsection \<open>Invariants of the reachable states\<close>

lemma level_idx_erase: "level_idx (ForwardADLevel_erase h L) = level_idx L"
  by (simp add: ForwardADLevel_erase_def)

lemma level_idx_insert: "level_idx (ForwardADLevel_insert h L) = level_idx L"
  by (simp add: ForwardADLevel_insert_def)

lemma levels_wf_init: "levels_wf init"
  by (simp add: levels_wf_def active_init)

lemma levels_wf_exec: "levels_wf s \<Longrightarrow> levels_wf (exec c s)"
proof (cases c)
  case NextIdx
  assume wf: "levels_wf s"
  show ?thesis
  proof (cases "get_next_idx s")
    case (Pair r s')
    show ?thesis
    proof (cases r)
      case (Inl e)
      with Pair have "s' = s" by (simp add: get_next_idx_Inl)
      with wf Pair NextIdx show ?thesis by simp
    next
      case (Inr k)
      with Pair have "s' = put_level k (ForwardADLevel_new k) s"
        by (simp add: get_next_idx_Inr)
      with wf Pair NextIdx show ?thesis
        by (auto simp: levels_wf_def active_put_level ForwardADLevel_new_def)
    qed
  qed
next
  case (Release j)
  assume "levels_wf s"
  with Release show ?thesis
    by (auto simp: levels_wf_def active_release_idx split: if_splits)
next
  case (SetValue h v j)
  assume "levels_wf s"
  with SetValue show ?thesis
    by (cases "active s j")
       (auto simp: levels_wf_def active_set_value level_idx_insert split: if_splits)
next
  case (Reset h j b)
  assume "levels_wf s"
  with Reset show ?thesis
    by (cases "active s j")
       (auto simp: levels_wf_def active_reset level_idx_erase split: if_splits)
next
  case (Clear h)
  assume "levels_wf s"
  with Clear show ?thesis
    by (auto simp: levels_wf_def active_clear level_idx_erase split: if_splits)
qed

lemma levels_wf_run: "levels_wf s \<Longrightarrow> levels_wf (run cs s)"
  by (induction cs arbitrary: s) (simp_all add: run_Nil run_Cons levels_wf_exec)

text \<open>A scope lists a holder only if the holder has an entry for it: kept by every call
  that leaves \<open>update_level\<close> at its default.\<close>

lemma member_contains_exec:
  assumes "levels_wf s" and "default_update c" and "member g i s \<longrightarrow> contains g i s"
  shows "member g i (exec c s) \<longrightarrow> contains g i (exec c s)"
proof (cases c)
  case NextIdx
  with assms show ?thesis by (simp add: member_get_next_idx contains_entry entry_get_next_idx)
next
  case (Release j)
  with assms show ?thesis
    by (simp add: member_release_idx contains_entry entry_release_idx_wf)
next
  case (SetValue h v j)
  with assms show ?thesis
    by (auto simp: member_set_value contains_entry entry_set_value)
next
  case (Reset h j b)
  with assms show ?thesis
    by (auto simp: member_reset contains_entry entry_reset)
next
  case (Clear h)
  with assms show ?thesis
    by (auto simp: member_clear contains_entry entry_clear)
qed

lemma member_contains_run:
  "levels_wf s \<Longrightarrow> list_all default_update cs \<Longrightarrow> (member g i s \<longrightarrow> contains g i s) \<Longrightarrow>
   member g i (run cs s) \<longrightarrow> contains g i (run cs s)"
proof (induction cs arbitrary: s)
  case Nil
  then show ?case by (simp add: run_Nil)
next
  case (Cons c cs)
  from Cons.prems have "levels_wf (exec c s)" "list_all default_update cs"
    "member g i (exec c s) \<longrightarrow> contains g i (exec c s)"
    by (simp_all add: levels_wf_exec member_contains_exec)
  then show ?case unfolding run_Cons by (rule Cons.IH)
qed

text \<open>A holder has an entry only for a scope that lists it: kept by every call but
  \<open>clear\<close> on that holder.\<close>

lemma contains_member_exec:
  assumes "levels_wf s" and "c \<noteq> Clear g" and "contains g i s \<longrightarrow> member g i s"
  shows "contains g i (exec c s) \<longrightarrow> member g i (exec c s)"
proof (cases c)
  case NextIdx
  with assms show ?thesis by (simp add: member_get_next_idx contains_entry entry_get_next_idx)
next
  case (Release j)
  with assms show ?thesis
    by (auto simp: member_release_idx contains_entry entry_release_idx_wf split: if_splits)
next
  case (SetValue h v j)
  with assms show ?thesis
    by (auto simp: member_set_value contains_entry entry_set_value split: if_splits)
next
  case (Reset h j b)
  with assms have imp: "contains g i s \<longrightarrow> member g i s" by simp
  have "member h j s \<Longrightarrow> active s j \<noteq> None"
    by (cases "active s j") (simp_all add: member_def)
  with imp Reset show ?thesis
    by (auto simp: member_reset contains_entry entry_reset split: if_splits)
next
  case (Clear h)
  with assms show ?thesis
    by (auto simp: member_clear contains_entry entry_clear)
qed

lemma contains_member_run:
  "levels_wf s \<Longrightarrow> Clear g \<notin> set cs \<Longrightarrow> (contains g i s \<longrightarrow> member g i s) \<Longrightarrow>
   contains g i (run cs s) \<longrightarrow> member g i (run cs s)"
proof (induction cs arbitrary: s)
  case Nil
  then show ?case by (simp add: run_Nil)
next
  case (Cons c cs)
  from Cons.prems have "levels_wf (exec c s)" "Clear g \<notin> set cs"
    "contains g i (exec c s) \<longrightarrow> member g i (exec c s)"
    by (auto simp: levels_wf_exec intro: contains_member_exec [rule_format])
  then show ?case unfolding run_Cons by (rule Cons.IH)
qed

lemma member_init: "\<not> member g i init"
  by (simp add: member_def active_init)

lemma contains_init: "\<not> contains g i init"
  by (simp add: contains_entry entry_init)

lemma set_state_facts:
  "active (run [NextIdx, SetValue 0 (Tensor 1) 0] (init :: int state)) 0 =
     Some (ForwardADLevel_insert 0 (ForwardADLevel_new 0))"
  "entry 0 0 (run [NextIdx, SetValue 0 (Tensor 1) 0] (init :: int state)) = Some (Tensor 1)"
  by (simp_all add: run_Cons run_Nil active_set_value active_after_first entry_set_value
        entry_get_next_idx entry_init)

lemma cleared_state_facts:
  "active cleared_state 0 \<noteq> None" "contains 0 0 cleared_state" "\<not> member 0 0 cleared_state"
proof -
  have r: "cleared_state = snd (clear 0 (run [NextIdx, SetValue 0 (Tensor 1) 0] init))"
    by (simp add: cleared_state_def run_Cons run_Nil)
  have c: "contains 0 0 (run [NextIdx, SetValue 0 (Tensor 1) 0] (init :: int state))"
    by (simp add: contains_entry set_state_facts)
  show "active cleared_state 0 \<noteq> None"
    unfolding r by (simp add: active_clear set_state_facts)
  show "contains 0 0 cleared_state"
    unfolding r by (simp add: contains_entry entry_clear set_state_facts)
  show "\<not> member 0 0 cleared_state"
    unfolding r by (simp add: member_clear c)
qed


lemma released_state_facts:
  "active released_state = Map.empty" "entry 0 0 released_state = None"
proof -
  have r: "released_state = snd (release_idx 0 (run [NextIdx, SetValue 0 (Tensor 1) 0] init))"
    by (simp add: released_state_def run_Cons run_Nil)
  have a: "active (run [NextIdx, SetValue 0 (Tensor 1) 0] (init :: int state)) =
             [0 \<mapsto> ForwardADLevel_insert 0 (ForwardADLevel_new 0)]"
    by (simp add: run_Cons run_Nil active_set_value active_after_first)
  show "active released_state = Map.empty"
    unfolding r by (simp add: active_release_idx a)
  show "entry 0 0 released_state = None"
    unfolding r
    by (simp add: entry_release_idx a ForwardADLevel_insert_def ForwardADLevel_new_def
          set_uset_insert)
qed

lemma active_exec_kept:
  "c \<noteq> Release i \<Longrightarrow> active s i \<noteq> None \<Longrightarrow> active (exec c s) i \<noteq> None"
proof (cases c)
  case NextIdx
  assume a: "active s i \<noteq> None"
  show ?thesis
  proof (cases "get_next_idx s")
    case (Pair r s')
    show ?thesis
    proof (cases r)
      case (Inl e)
      with Pair have "s' = s" by (simp add: get_next_idx_Inl)
      with a Pair NextIdx show ?thesis by simp
    next
      case (Inr k)
      with Pair have "s' = put_level k (ForwardADLevel_new k) s"
        by (simp add: get_next_idx_Inr)
      with a Pair NextIdx show ?thesis by (simp add: active_put_level)
    qed
  qed
next
  case (Release j)
  assume "c \<noteq> Release i" "active s i \<noteq> None"
  with Release show ?thesis by (simp add: active_release_idx)
next
  case (SetValue h v j)
  assume "active s i \<noteq> None"
  with SetValue show ?thesis by (simp add: active_None_set_value)
next
  case (Reset h j b)
  assume "active s i \<noteq> None"
  with Reset show ?thesis by (cases "active s j") (auto simp: active_reset)
next
  case (Clear h)
  assume "active s i \<noteq> None"
  with Clear show ?thesis by (auto simp: active_clear)
qed

lemma active_run_kept:
  "Release i \<notin> set cs \<Longrightarrow> active s i \<noteq> None \<Longrightarrow> active (run cs s) i \<noteq> None"
proof (induction cs arbitrary: s)
  case Nil
  then show ?case by (simp add: run_Nil)
next
  case (Cons c cs)
  from Cons.prems have "c \<noteq> Release i" "active s i \<noteq> None" by auto
  then have "active (exec c s) i \<noteq> None" by (rule active_exec_kept)
  moreover from Cons.prems have "Release i \<notin> set cs" by simp
  ultimately have "Release i \<notin> set cs" "active (exec c s) i \<noteq> None" by blast+
  then show ?case unfolding run_Cons by (rule Cons.IH)
qed

lemma mint_None: "mint n live c = None \<Longrightarrow> k < n \<Longrightarrow> live (c + of_nat k)"
proof (induction n live c arbitrary: k rule: mint.induct)
  case (1 fuel live c)
  from "1.prems"(2) have pos: "fuel \<noteq> 0" by simp
  from "1.prems"(1) pos have lc: "live c" and rest: "mint (fuel - 1) live (c + 1) = None"
    by (subst (asm) mint.simps, simp split: if_splits)+
  show ?case
  proof (cases k)
    case 0
    with lc show ?thesis by simp
  next
    case (Suc k')
    with "1.prems"(2) have "k' < fuel - 1" by simp
    with "1.IH" [OF pos lc rest] have "live (c + 1 + of_nat k')" by blast
    moreover have "c + 1 + of_nat k' = c + of_nat (Suc k')" by (simp add: ac_simps)
    ultimately show ?thesis using Suc by simp
  qed
qed

lemma get_next_idx_succeeds:
  assumes "active s j = None"
  shows "\<exists>i. get_next_idx s = (Inr i, put_level i (ForwardADLevel_new i) s)"
proof (cases "mint index_space (\<lambda>i. active s i \<noteq> None) 0")
  case None
  have "unat j < index_space"
    using unsigned_less [of j, where 'a = nat] by (simp add: index_space_def)
  with None have "active s (0 + of_nat (unat j)) \<noteq> None" by (rule mint_None)
  with assms show ?thesis by simp
next
  case (Some i)
  then show ?thesis by (simp add: get_next_idx_def)
qed

section \<open>The specified properties\<close>

subsection \<open>Setting a value twice\<close>

text \<open>
  C1 as stated fails. \<open>unordered_map::insert\<close> leaves an existing element alone, so the
  second \<open>set_value\<close> for a level does not overwrite the first: after tensor 1 and then
  tensor 2 are set under the fresh level 0, \<open>value\<close> yields tensor 1.
\<close>

theorem set_value_twice_counterexample:
  "active (run [NextIdx] (init :: int state)) 0 \<noteq> None \<and>
   fst (set_value 0 (Tensor 1) 0 (run [NextIdx] (init :: int state))) = None \<and>
   fst (set_value 0 (Tensor 2) 0 (run [NextIdx, SetValue 0 (Tensor 1) 0] (init :: int state))) = None \<and>
   tensor_at (value 0 0 twice_set_state) twice_set_state = Some (Tensor 1) \<and>
   tensor_at (value 0 0 twice_set_state) twice_set_state \<noteq> Some (Tensor 2)"
  by (simp add: twice_set_state_def run_Cons run_Nil tensor_at_value entry_set_value
        active_set_value active_after_first entry_get_next_idx entry_init fst_set_value)

text \<open>
  C1, amended. For every holder and every active level \<open>i\<close>, two calls of \<open>set_value\<close> for
  \<open>i\<close> both return normally and the second leaves the whole state as the first left it:
  no entry of any holder and no membership of any level changes. Afterwards \<open>value\<close>
  yields the first tensor if the holder had no entry for \<open>i\<close> before the two calls, and
  the tensor that was stored before them otherwise.
\<close>

theorem set_value_keeps_first_entry:
  "active s i \<noteq> None \<Longrightarrow>
   fst (set_value g va i s) = None \<and>
   set_value g vb i (snd (set_value g va i s)) = (None, snd (set_value g va i s)) \<and>
   (\<forall>h k. entry h k (snd (set_value g vb i (snd (set_value g va i s)))) =
            entry h k (snd (set_value g va i s))) \<and>
   (\<forall>h k. member h k (snd (set_value g vb i (snd (set_value g va i s)))) =
            member h k (snd (set_value g va i s))) \<and>
   tensor_at (value g i (snd (set_value g vb i (snd (set_value g va i s)))))
             (snd (set_value g vb i (snd (set_value g va i s)))) =
     Some (case entry g i s of None \<Rightarrow> va | Some v0 \<Rightarrow> v0)"
proof -
  assume a: "active s i \<noteq> None"
  let ?s1 = "snd (set_value g va i s)"
  have 1: "fst (set_value g va i s) = None" using a by (simp add: fst_set_value)
  have m: "member g i ?s1" using a by (simp add: member_set_value)
  have e: "entry g i ?s1 \<noteq> None" using a by (auto simp: entry_set_value)
  from m e have 2: "set_value g vb i ?s1 = (None, ?s1)" by (rule set_value_again)
  have 3: "tensor_at (value g i ?s1) ?s1 = Some (case entry g i s of None \<Rightarrow> va | Some v0 \<Rightarrow> v0)"
    using a by (auto simp: tensor_at_value entry_set_value split: option.splits)
  show ?thesis unfolding 2 using 1 3 by simp
qed

text \<open>The statement at a concrete input.\<close>

theorem set_value_keeps_first_entry_witness:
  "active (run [NextIdx] (init :: int state)) 0 \<noteq> None \<and>
   tensor_at (value 0 0 twice_set_state) twice_set_state = Some (Tensor 1)"
proof -
  have a: "active (run [NextIdx] (init :: int state)) 0 \<noteq> None"
    by (simp add: run_Cons run_Nil active_after_first)
  have e: "entry 0 0 (run [NextIdx] (init :: int state)) = None"
    by (simp add: run_Cons run_Nil entry_get_next_idx entry_init)
  have r: "twice_set_state =
           snd (set_value 0 (Tensor 2) 0 (snd (set_value 0 (Tensor 1) 0 (run [NextIdx] init))))"
    by (simp add: twice_set_state_def run_Cons run_Nil)
  from set_value_keeps_first_entry [OF a, where g = 0 and va = "Tensor 1" and vb = "Tensor 2"]
  have "tensor_at (value 0 0 twice_set_state) twice_set_state =
          Some (case entry 0 0 (run [NextIdx] (init :: int state)) of None \<Rightarrow> Tensor 1 | Some v0 \<Rightarrow> v0)"
    unfolding r by blast
  then have "tensor_at (value 0 0 twice_set_state) twice_set_state = Some (Tensor 1)"
    unfolding e by simp
  with a show ?thesis by blast
qed

subsection \<open>Entries and memberships\<close>

text \<open>
  C2 as stated fails once \<open>clear\<close> is among the calls: \<open>clear\<close> erases the holder from
  its levels and does not write \<open>content_\<close>. After \<open>get_next_idx\<close>, \<open>set_value\<close> and
  \<open>clear\<close> the level 0 is active and does not list the holder, which still has its entry
  for level 0.
\<close>

theorem bidirectional_counterexample:
  "cleared_state = run [NextIdx, SetValue 0 (Tensor 1) 0, Clear 0] init \<and>
   active cleared_state 0 \<noteq> None \<and>
   \<not> (contains 0 0 cleared_state \<longleftrightarrow> member 0 0 cleared_state)"
  using cleared_state_facts by (simp add: cleared_state_def)

text \<open>
  C2, amended. In every state reached from the initial one by calls of \<open>get_next_idx\<close>,
  \<open>release_idx\<close>, \<open>set_value\<close>, \<open>reset\<close> with \<open>update_level\<close> at its default, and \<open>clear\<close>:
  a level that lists a holder is one the holder has an entry for; and for a holder on
  which \<open>clear\<close> has not been called the converse holds too, so that it has an entry for
  \<open>i\<close> exactly when the level at \<open>i\<close> is active and lists it.
\<close>

theorem bidirectional_without_clear:
  "list_all default_update cs \<Longrightarrow>
   (member g i (run cs init) \<longrightarrow> contains g i (run cs init)) \<and>
   (Clear g \<notin> set cs \<longrightarrow> (contains g i (run cs init) \<longleftrightarrow> member g i (run cs init))) \<and>
   (Clear g \<notin> set cs \<longrightarrow> contains g i (run cs init) \<longrightarrow> active (run cs init) i \<noteq> None)"
proof -
  assume d: "list_all default_update cs"
  have 1: "member g i (run cs init) \<longrightarrow> contains g i (run cs init)"
    using levels_wf_init d by (rule member_contains_run) (simp add: member_init)
  have 2: "contains g i (run cs init) \<longrightarrow> member g i (run cs init)" if "Clear g \<notin> set cs"
    using levels_wf_init that by (rule contains_member_run) (simp add: contains_init)
  have 3: "member g i s \<Longrightarrow> active s i \<noteq> None" for s :: "'a state"
    by (cases "active s i") (simp_all add: member_def)
  from 1 2 3 show ?thesis by blast
qed

text \<open>The statement at a concrete input.\<close>

theorem bidirectional_without_clear_witness:
  "list_all default_update [NextIdx, SetValue 0 (Tensor (1::int)) 0] \<and>
   Clear 0 \<notin> set [NextIdx, SetValue 0 (Tensor (1::int)) 0] \<and>
   member 0 0 (run [NextIdx, SetValue 0 (Tensor (1::int)) 0] init) \<and>
   contains 0 0 (run [NextIdx, SetValue 0 (Tensor (1::int)) 0] init)"
proof -
  let ?cs = "[NextIdx, SetValue 0 (Tensor (1::int)) 0]"
  have d: "list_all default_update ?cs" by simp
  have n: "Clear 0 \<notin> set ?cs" by simp
  have c: "contains 0 0 (run ?cs init)" by (simp add: contains_entry set_state_facts)
  from bidirectional_without_clear [OF d, of 0 0] n c
  have "member 0 0 (run ?cs init)" by blast
  with d n c show ?thesis by blast
qed

subsection \<open>Tearing a holder down\<close>




subsection \<open>Setting under a fresh level and releasing it\<close>

text \<open>
  C4. For a level \<open>A\<close> just returned by \<open>get_next_idx\<close> and any holder, \<open>set_value\<close> for
  \<open>A\<close> returns normally and \<open>contains\<close> is true afterwards; \<open>release_idx\<close> of \<open>A\<close> then
  returns normally and \<open>contains\<close> is false afterwards.
\<close>

theorem fresh_scope_set_then_release:
  "get_next_idx s = (Inr A, s1) \<Longrightarrow>
   fst (set_value g v A s1) = None \<and>
   contains g A (snd (set_value g v A s1)) \<and>
   fst (release_idx A (snd (set_value g v A s1))) = None \<and>
   \<not> contains g A (snd (release_idx A (snd (set_value g v A s1))))"
proof -
  assume "get_next_idx s = (Inr A, s1)"
  then have s1: "s1 = put_level A (ForwardADLevel_new A) s"
    by (simp add: get_next_idx_Inr)
  have a1: "active s1 A = Some (ForwardADLevel_new A)"
    by (simp add: s1 active_put_level)
  have a2: "active (snd (set_value g v A s1)) A =
              Some (ForwardADLevel_insert g (ForwardADLevel_new A))"
    by (simp add: active_set_value a1)
  have 1: "fst (set_value g v A s1) = None"
    by (simp add: fst_set_value a1)
  have 2: "contains g A (snd (set_value g v A s1))"
    by (auto simp: contains_entry entry_set_value a1)
  have 3: "fst (release_idx A (snd (set_value g v A s1))) = None"
    by (simp add: fst_release_idx a2)
  have 4: "\<not> contains g A (snd (release_idx A (snd (set_value g v A s1))))"
    by (simp add: contains_entry entry_release_idx a2 ForwardADLevel_insert_def
          ForwardADLevel_new_def set_uset_insert)
  from 1 2 3 4 show ?thesis by blast
qed

text \<open>The statement at a concrete input.\<close>

theorem fresh_scope_set_then_release_witness:
  "get_next_idx (init :: int state) = (Inr 0, put_level 0 (ForwardADLevel_new 0) init) \<and>
   contains 0 0 (snd (set_value 0 (Tensor 1) 0 (put_level 0 (ForwardADLevel_new 0) (init :: int state)))) \<and>
   \<not> contains 0 0 (snd (release_idx 0 (snd (set_value 0 (Tensor 1) 0
        (put_level 0 (ForwardADLevel_new 0) (init :: int state))))))"
proof -
  have a: "get_next_idx (init :: int state) = (Inr 0, put_level 0 (ForwardADLevel_new 0) init)"
    by (rule get_next_idx_first) (rule active_init)
  from fresh_scope_set_then_release [OF a, where g = 0 and v = "Tensor 1"] a show ?thesis by blast
qed

subsection \<open>A recycled index\<close>

text \<open>
  C5 as stated fails for a holder on which \<open>clear\<close> is called after its \<open>set_value\<close>:
  \<open>clear\<close> takes the holder off the level and leaves \<open>content_\<close> alone, so the release
  of the level does not reach the holder. After \<open>set_value\<close> under level 0, \<open>clear\<close> and
  \<open>release_idx\<close>, the next \<open>get_next_idx\<close> returns 0 again and \<open>contains\<close> is still true.
\<close>

theorem recycled_index_counterexample:
  "fst (set_value 0 (Tensor (1::int)) 0 (run [NextIdx] init)) = None \<and>
   get_next_idx (run [Clear 0, Release 0]
       (snd (set_value 0 (Tensor (1::int)) 0 (run [NextIdx] init)))) =
     (Inr 0, put_level 0 (ForwardADLevel_new 0) stale_state) \<and>
   contains 0 0 (put_level 0 (ForwardADLevel_new 0) stale_state)"
proof -
  have a: "fst (set_value 0 (Tensor (1::int)) 0 (run [NextIdx] init)) = None"
    by (simp add: fst_set_value run_Cons run_Nil active_after_first)
  have r: "run [Clear 0, Release 0] (snd (set_value 0 (Tensor (1::int)) 0 (run [NextIdx] init))) =
           stale_state"
    by (simp add: stale_state_def run_Cons run_Nil)
  have b: "get_next_idx (run [Clear 0, Release 0]
             (snd (set_value 0 (Tensor (1::int)) 0 (run [NextIdx] init)))) =
           (Inr 0, put_level 0 (ForwardADLevel_new 0) stale_state)"
    unfolding r by (rule get_next_idx_first) (rule stale_state_facts)
  have "contains 0 0 stale_state" by (rule stale_state_facts)
  then have c: "contains 0 0 (put_level 0 (ForwardADLevel_new 0) stale_state)"
    by (simp add: contains_entry entry_put_level)
  from a b c show ?thesis by blast
qed

text \<open>
  C5, amended. Let a holder set a value for the level \<open>i\<close> in a state reached from the initial
  one, and let any calls follow, none of them \<open>clear\<close> on that holder (which the source
  allows only when the holder is being destroyed). If \<open>get_next_idx\<close> then returns \<open>i\<close>
  again, the level was released in between, and right after the allocation the holder
  has no entry for \<open>i\<close>.
\<close>

theorem recycled_index_clean_slate:
  assumes set_ok: "fst (set_value g v i (run cs0 init)) = None"
    and no_clear: "Clear g \<notin> set cs1"
    and again: "get_next_idx (run cs1 (snd (set_value g v i (run cs0 init)))) = (Inr i, s')"
  shows "Release i \<in> set cs1 \<and> active s' i \<noteq> None \<and> \<not> contains g i s'"
proof -
  let ?s0 = "run cs0 (init :: 'a state)"
  let ?s1 = "snd (set_value g v i ?s0)"
  let ?s2 = "run cs1 ?s1"
  from set_ok have act0: "active ?s0 i \<noteq> None"
    by (simp add: fst_set_value split: if_splits)
  then have act1: "active ?s1 i \<noteq> None" by (simp add: active_None_set_value)
  from again have free: "active ?s2 i = None" and s': "s' = put_level i (ForwardADLevel_new i) ?s2"
    by (simp_all add: get_next_idx_Inr)
  from act1 free have rel: "Release i \<in> set cs1"
    using active_run_kept [of i cs1 ?s1] by blast
  have wf1: "levels_wf ?s1"
    using levels_wf_exec [of ?s0 "SetValue g v i"] levels_wf_run [OF levels_wf_init, of cs0]
    by simp
  have "member g i ?s1" using act0 by (simp add: member_set_value)
  then have "contains g i ?s1 \<longrightarrow> member g i ?s1" by simp
  with wf1 no_clear have "contains g i ?s2 \<longrightarrow> member g i ?s2"
    by (rule contains_member_run)
  moreover from free have "\<not> member g i ?s2" by (simp add: member_def)
  ultimately have "\<not> contains g i ?s2" by blast
  then have "\<not> contains g i s'"
    by (simp add: s' contains_entry entry_put_level)
  moreover have "active s' i \<noteq> None" by (simp add: s' active_put_level)
  ultimately show ?thesis using rel by blast
qed

text \<open>The statement at a concrete input.\<close>

theorem recycled_index_clean_slate_witness:
  "fst (set_value 0 (Tensor (1::int)) 0 (run [NextIdx] init)) = None \<and>
   Clear 0 \<notin> set [Release 0 :: int call] \<and>
   get_next_idx (run [Release 0] (snd (set_value 0 (Tensor (1::int)) 0 (run [NextIdx] init)))) =
     (Inr 0, put_level 0 (ForwardADLevel_new 0) released_state) \<and>
   \<not> contains 0 0 (put_level 0 (ForwardADLevel_new 0) released_state)"
proof -
  have a: "fst (set_value 0 (Tensor (1::int)) 0 (run [NextIdx] init)) = None"
    by (simp add: fst_set_value run_Cons run_Nil active_after_first)
  have n: "Clear 0 \<notin> set [Release 0 :: int call]" by simp
  have r: "run [Release 0] (snd (set_value 0 (Tensor (1::int)) 0 (run [NextIdx] init))) =
           released_state"
    by (simp add: released_state_def run_Cons run_Nil)
  have b: "get_next_idx (run [Release 0] (snd (set_value 0 (Tensor (1::int)) 0 (run [NextIdx] init)))) =
             (Inr 0, put_level 0 (ForwardADLevel_new 0) released_state)"
    unfolding r by (rule get_next_idx_first) (simp add: released_state_facts)
  from recycled_index_clean_slate [OF a n b]
  have "\<not> contains 0 0 (put_level 0 (ForwardADLevel_new 0) released_state)" by blast
  with a n b show ?thesis by blast
qed

subsection \<open>The undefined tensor\<close>

text \<open>
  C7. For a holder with no entry for \<open>i\<close>, \<open>value\<close> returns the reference that
  \<open>undef_grad\<close> returns, the same one for every holder, index and state; the tensor
  behind it is changed by no sequence of calls, and is the undefined tensor in every
  state reached from the initial one.
\<close>

theorem value_absent_is_sentinel:
  "\<not> contains g i s \<Longrightarrow>
   value g i s = undef_grad \<and>
   tensor_at (value g i s) s = Some (undef_tensor s) \<and>
   tensor_at undef_grad (run cs s) = tensor_at undef_grad s \<and>
   tensor_at undef_grad (run cs (init :: 'a state)) = Some UndefinedTensor"
  by (simp add: contains_entry tensor_at_value)
     (simp add: value_def entry_def tensor_at_def undef_grad_def undef_tensor_run init_def)

text \<open>The statement at a concrete input.\<close>

theorem value_absent_is_sentinel_witness:
  "\<not> contains 3 5 (run [NextIdx, SetValue 0 (Tensor 1) 0] (init :: int state)) \<and>
   value 3 5 (run [NextIdx, SetValue 0 (Tensor 1) 0] (init :: int state)) = undef_grad \<and>
   tensor_at undef_grad (run [NextIdx, SetValue 0 (Tensor 1) 0] (init :: int state)) =
     Some UndefinedTensor"
proof -
  let ?s = "run [NextIdx, SetValue 0 (Tensor 1) 0] (init :: int state)"
  have a: "\<not> contains 3 5 ?s"
    by (simp add: run_Cons run_Nil contains_entry entry_set_value entry_get_next_idx entry_init)
  from value_absent_is_sentinel [OF a, of "[NextIdx, SetValue 0 (Tensor 1) 0]"]
  have "value 3 5 ?s = undef_grad" "tensor_at undef_grad ?s = Some UndefinedTensor"
    by blast+
  with a show ?thesis by blast
qed

subsection \<open>Two active levels\<close>

text \<open>
  C8 as stated fails for a holder that already has an entry. With the levels 0 and 1
  active and tensor 0 stored under level 0, setting tensor 1 under level 0 and tensor 2
  under level 1 leaves \<open>value\<close> for level 0 at tensor 0.
\<close>

theorem two_scopes_counterexample:
  "active two_scopes_state 0 \<noteq> None \<and> active two_scopes_state 1 \<noteq> None \<and>
   fst (set_value 0 (Tensor 1) 0 two_scopes_state) = None \<and>
   fst (set_value 0 (Tensor 2) 1 (snd (set_value 0 (Tensor 1) 0 two_scopes_state))) = None \<and>
   tensor_at (value 0 0 two_scopes_after) two_scopes_after = Some (Tensor 0) \<and>
   tensor_at (value 0 0 two_scopes_after) two_scopes_after \<noteq> Some (Tensor 1)"
  by (simp add: two_scopes_after_def two_scopes_state_facts fst_set_value
        active_None_set_value tensor_at_value entry_set_value)

text \<open>
  C8, amended. For two different active levels \<open>A\<close> and \<open>B\<close> and a holder that has an
  entry for neither, after \<open>set_value\<close> of \<open>va\<close> for \<open>A\<close> and of \<open>vb\<close> for \<open>B\<close> the call
  \<open>value\<close> yields \<open>va\<close> for \<open>A\<close> and \<open>vb\<close> for \<open>B\<close>; the following \<open>reset\<close> of \<open>A\<close> returns
  normally, removes the entry for \<open>A\<close> and leaves every other entry of every holder, the
  one for \<open>B\<close> among them, as it was.
\<close>

theorem two_scopes_independent:
  "A \<noteq> B \<Longrightarrow> active s A \<noteq> None \<Longrightarrow> active s B \<noteq> None \<Longrightarrow>
   \<not> contains g A s \<Longrightarrow> \<not> contains g B s \<Longrightarrow>
   s1 = snd (set_value g va A s) \<Longrightarrow> s2 = snd (set_value g vb B s1) \<Longrightarrow>
   s3 = snd (reset g A True s2) \<Longrightarrow>
   fst (set_value g va A s) = None \<and> fst (set_value g vb B s1) = None \<and>
   tensor_at (value g A s2) s2 = Some va \<and> tensor_at (value g B s2) s2 = Some vb \<and>
   fst (reset g A True s2) = None \<and>
   \<not> contains g A s3 \<and> tensor_at (value g B s3) s3 = Some vb \<and>
   (\<forall>h k. (h, k) \<noteq> (g, A) \<longrightarrow> entry h k s3 = entry h k s2)"
  by (auto simp: fst_set_value fst_reset active_None_set_value tensor_at_value entry_set_value
        entry_reset contains_entry)

text \<open>The statement at a concrete input.\<close>

theorem two_scopes_independent_witness:
  "(0 :: idx) \<noteq> 1 \<and>
   active (run [NextIdx, NextIdx] (init :: int state)) 0 \<noteq> None \<and>
   active (run [NextIdx, NextIdx] (init :: int state)) 1 \<noteq> None \<and>
   \<not> contains 0 0 (run [NextIdx, NextIdx] (init :: int state)) \<and>
   \<not> contains 0 1 (run [NextIdx, NextIdx] (init :: int state)) \<and>
   tensor_at (value 0 1 (run [NextIdx, NextIdx, SetValue 0 (Tensor 1) 0, SetValue 0 (Tensor 2) 1,
                Reset 0 0 True] (init :: int state)))
     (run [NextIdx, NextIdx, SetValue 0 (Tensor 1) 0, SetValue 0 (Tensor 2) 1, Reset 0 0 True]
        (init :: int state)) = Some (Tensor 2) \<and>
   \<not> contains 0 0 (run [NextIdx, NextIdx, SetValue 0 (Tensor 1) 0, SetValue 0 (Tensor 2) 1,
                Reset 0 0 True] (init :: int state))"
proof -
  let ?s = "run [NextIdx, NextIdx] (init :: int state)"
  let ?s1 = "snd (set_value 0 (Tensor 1) 0 ?s)"
  let ?s2 = "snd (set_value 0 (Tensor 2) 1 ?s1)"
  let ?s3 = "snd (reset 0 0 True ?s2)"
  have d: "(0 :: idx) \<noteq> 1" by simp
  have a: "active ?s 0 \<noteq> None" and b: "active ?s 1 \<noteq> None"
    by (simp_all add: run_Cons run_Nil active_after_second)
  have c: "\<not> contains 0 0 ?s" and c': "\<not> contains 0 1 ?s"
    by (simp_all add: run_Cons run_Nil contains_entry entry_get_next_idx entry_init)
  have r: "run [NextIdx, NextIdx, SetValue 0 (Tensor 1) 0, SetValue 0 (Tensor 2) 1,
                Reset 0 0 True] (init :: int state) = ?s3"
    by (simp add: run_Cons run_Nil)
  from two_scopes_independent [OF d a b c c' refl refl refl, where va = "Tensor 1" and vb = "Tensor 2"]
  have "tensor_at (value 0 1 ?s3) ?s3 = Some (Tensor 2)" "\<not> contains 0 0 ?s3"
    by blast+
  with d a b c c' show ?thesis unfolding r by blast
qed

subsection \<open>Setting under an unknown level\<close>

text \<open>
  C9. When \<open>set_value\<close> is called for a level that is not active it fails with
  \<open>UnknownScope\<close> and leaves the state as it was: no entry is added and the holder is not
  registered with any level, the lookup of the level coming before every write. It fails
  in no other case.
\<close>

theorem set_value_unknown_scope_no_change:
  "(active s level = None \<longrightarrow> set_value g v level s = (Some UnknownScope, s)) \<and>
   (fst (set_value g v level s) \<noteq> None \<longrightarrow>
      fst (set_value g v level s) = Some UnknownScope \<and> active s level = None \<and>
      snd (set_value g v level s) = s)"
proof (cases "active s level")
  case None
  then show ?thesis by (simp add: set_value_unknown)
next
  case (Some L)
  then show ?thesis by (simp add: set_value_known)
qed

text \<open>The statement at a concrete input.\<close>

theorem set_value_unknown_scope_no_change_witness:
  "active (init :: int state) 7 = None \<and>
   set_value 0 (Tensor 1) 7 (init :: int state) = (Some UnknownScope, init) \<and>
   fst (set_value 0 (Tensor 1) 7 (init :: int state)) \<noteq> None \<and>
   snd (set_value 0 (Tensor 1) 7 (init :: int state)) = init"
proof -
  have a: "active (init :: int state) 7 = None" by (simp add: active_init)
  from set_value_unknown_scope_no_change [of "init :: int state" 7 0 "Tensor 1"] a
  have b: "set_value 0 (Tensor 1) 7 (init :: int state) = (Some UnknownScope, init)"
    by blast
  show ?thesis unfolding b using a by simp
qed

subsection \<open>Resetting an unknown level\<close>

text \<open>
  C10. When \<open>reset\<close> is called with \<open>update_level\<close> true for a level that is not active, it
  fails with \<open>UnknownScope\<close> before the local erase, so an entry that the holder still has
  for the level stays; with \<open>update_level\<close> false it returns normally, removes the entry and
  does not touch the registry.
\<close>

theorem reset_unknown_scope_keeps_entry:
  "active s level = None \<Longrightarrow>
   reset g level True s = (Some UnknownScope, s) \<and>
   reset g level False s = (None, content_erase g level s) \<and>
   contains g level (snd (reset g level True s)) = contains g level s \<and>
   \<not> contains g level (snd (reset g level False s)) \<and>
   active (snd (reset g level False s)) = active s"
  by (simp add: reset_unknown reset_False contains_entry entry_content_erase
        active_content_erase)

text \<open>The statement at a concrete input.\<close>

theorem reset_unknown_scope_keeps_entry_witness:
  "active stale_state 0 = None \<and>
   fst (reset 0 0 True stale_state) = Some UnknownScope \<and>
   contains 0 0 (snd (reset 0 0 True stale_state)) \<and>
   fst (reset 0 0 False stale_state) = None \<and>
   \<not> contains 0 0 (snd (reset 0 0 False stale_state))"
proof -
  have a: "active stale_state 0 = None" by (rule stale_state_facts)
  have c: "contains 0 0 stale_state" by (rule stale_state_facts)
  note t = reset_unknown_scope_keeps_entry [OF a, of 0]
  from t have "reset 0 0 True stale_state = (Some UnknownScope, stale_state)" by blast
  then have 1: "fst (reset 0 0 True stale_state) = Some UnknownScope" by simp
  from t c have 2: "contains 0 0 (snd (reset 0 0 True stale_state))" by blast
  from t have "reset 0 0 False stale_state = (None, content_erase 0 0 stale_state)" by blast
  then have 3: "fst (reset 0 0 False stale_state) = None" by simp
  from t have 4: "\<not> contains 0 0 (snd (reset 0 0 False stale_state))" by blast
  from a 1 2 3 4 show ?thesis by blast
qed

end
